theory Spec2Isabelle
  imports Main "HOL-Library.Sublist"
begin

section \<open>Transaction selection of the sequencer (package txselector)\<close>

subsection \<open>Go values used by the selectors\<close>

text \<open>
  A Go slice is either \<open>nil\<close> or a backing sequence; both have a length, and
  \<open>append\<close> to \<open>nil\<close> allocates. Capacity is not modelled (no code path reads it).
\<close>

datatype 'a slice = NilSlice | Slice "'a list"

fun elems :: "'a slice \<Rightarrow> 'a list" where
  "elems NilSlice = []"
| "elems (Slice xs) = xs"

fun append_slice :: "'a slice \<Rightarrow> 'a \<Rightarrow> 'a slice" where
  "append_slice NilSlice x = Slice [x]"
| "append_slice (Slice xs) x = Slice (xs @ [x])"

text \<open>\<open>make([]T, 0, n)\<close>: a non-nil slice of length 0.\<close>

definition make_slice :: "nat \<Rightarrow> 'a slice" where
  "make_slice cap = Slice []"

text \<open>
  A non-nil Go \<open>error\<close> value: its identity (two calls of \<open>errors.New\<close> with the same
  text give different errors), the string returned by \<open>Error()\<close>, and the error
  returned by \<open>Unwrap()\<close> if it wraps one. A nil error is \<open>None\<close> of \<open>error option\<close>.
\<close>

datatype error = MkError (ident: nat) (Error: string) (Unwrap: "error option")

text \<open>
  \<open>errors.Is(err, target)\<close> for non-nil arguments: \<open>err\<close> is \<open>target\<close>, or the
  error it wraps is, along the chain of \<open>Unwrap\<close>.
\<close>

fun errors_Is :: "error \<Rightarrow> error \<Rightarrow> bool" where
  "errors_Is (MkError i m None) target = (MkError i m None = target)"
| "errors_Is (MkError i m (Some e)) target =
     (MkError i m (Some e) = target \<or> errors_Is e target)"

text \<open>
  \<open>pool.Transaction\<close> embeds \<open>types.Transaction\<close> and carries pool metadata (the
  extension of the record). \<open>types.Transaction\<close> is the type parameter \<open>'tx\<close>.
\<close>

record 'tx pool_Transaction =
  Transaction :: 'tx

text \<open>
  The result of \<open>ProcessTransaction\<close>, as the selector reads it: the answer of
  \<open>Failed()\<close> and the field \<open>Err\<close>.
\<close>

record result =
  Failed :: bool
  Err :: "error option"

text \<open>
  The batch processor is stateful: \<open>ProcessTransaction\<close> takes the processor's state
  and returns the result with the new state. The transaction behind the pointer it
  receives is taken to be left as it is (\<open>types.Transaction\<close> has no exported field
  and no setter).
\<close>

type_synonym ('tx, 'addr, 'st) batchProcessor = "'st \<Rightarrow> 'tx \<Rightarrow> 'addr \<Rightarrow> result \<times> 'st"

text \<open>
  What the selectors use from outside this file: \<open>Hash().Hex()\<close> of a transaction
  and, from package \<open>state\<close>, the table \<open>InvalidTxErrors\<close> (a \<open>map[string]bool\<close>,
  false on a missing key) and the two sentinel errors.
\<close>

record 'tx env =
  HashHex :: "'tx \<Rightarrow> string"
  InvalidTxErrors :: "string \<Rightarrow> bool"
  ErrNonceIsBiggerThanAccountNonce :: error
  ErrInvalidCumulativeGas :: error

text \<open>
  What a call of \<open>SelectTxs\<close> gives back: a run-time panic (a nil dereference), or
  the four return values.
\<close>

datatype 'tx returned =
  Panic
| Return "'tx slice" "string slice" "string slice" "error option"

text \<open>
  A call is observed as its return, the processor's state afterwards, and the
  transactions passed to \<open>ProcessTransaction\<close>, in call order.
\<close>

type_synonym ('tx, 'st) observed = "'tx returned \<times> 'st \<times> 'tx list"

subsection \<open>AcceptAll\<close>

fun AcceptAll_loop ::
  "'tx env \<Rightarrow> ('tx, 'm) pool_Transaction_scheme list \<Rightarrow> 'tx slice \<Rightarrow> string slice
     \<Rightarrow> 'tx slice \<times> string slice" where
  "AcceptAll_loop E [] selectedTxs selectedTxsHashes = (selectedTxs, selectedTxsHashes)"
| "AcceptAll_loop E (tx # rest) selectedTxs selectedTxsHashes =
     (let t = Transaction tx in
      AcceptAll_loop E rest (append_slice selectedTxs t)
        (append_slice selectedTxsHashes (HashHex E (Transaction tx))))"

definition AcceptAll_SelectTxs ::
  "'tx env \<Rightarrow> ('tx, 'addr, 'st) batchProcessor \<Rightarrow> 'st
     \<Rightarrow> ('tx, 'm) pool_Transaction_scheme list \<Rightarrow> 'addr \<Rightarrow> ('tx, 'st) observed" where
  "AcceptAll_SelectTxs E batchProcessor st pendingTxs sequencerAddress =
     (case AcceptAll_loop E pendingTxs (make_slice (length pendingTxs))
             (make_slice (length pendingTxs)) of
        (selectedTxs, selectedTxsHashes) \<Rightarrow>
          (Return selectedTxs selectedTxsHashes NilSlice None, st, []))"

subsection \<open>Base\<close>

text \<open>
  The interface \<open>TxSorter\<close> is its method \<open>SortTxs\<close>; a nil interface value is
  \<open>None\<close>.
\<close>

type_synonym ('tx, 'm) TxSorter =
  "('tx, 'm) pool_Transaction_scheme list \<Rightarrow> ('tx, 'm) pool_Transaction_scheme list"

record ('tx, 'm) Base =
  TxSorter :: "('tx, 'm) TxSorter option"

record 'k Config =
  TxSorterType :: 'k

text \<open>
  The enumeration constants \<open>ByCostAndTime\<close>, \<open>ByCostAndNonce\<close> and the two sorter
  implementations are declared in other files of the package: they are parameters.
  The \<open>switch\<close> has no default case, so \<open>sorter\<close> keeps its zero value, nil.
\<close>

definition NewTxSelectorBase ::
  "'k \<Rightarrow> 'k \<Rightarrow> ('tx, 'm) TxSorter \<Rightarrow> ('tx, 'm) TxSorter \<Rightarrow> 'k Config \<Rightarrow> ('tx, 'm) Base" where
  "NewTxSelectorBase ByCostAndTime ByCostAndNonce TxSorterByCostAndTime TxSorterByCostAndNonce cfg =
     (let sorter =
        (if TxSorterType cfg = ByCostAndTime then Some TxSorterByCostAndTime
         else if TxSorterType cfg = ByCostAndNonce then Some TxSorterByCostAndNonce
         else None)
      in \<lparr>TxSorter = sorter\<rparr>)"

text \<open>
  The variables of \<open>Base.SelectTxs\<close> between two iterations: the three slices, the
  processor's state and the calls made so far.
\<close>

record ('tx, 'st) vars =
  selectedTxs :: "'tx slice"
  selectedTxsHashes :: "string slice"
  invalidTxsHashes :: "string slice"
  processor :: 'st
  calls :: "'tx list"

text \<open>One pass through the body of the loop either goes on to the next iteration or returns.\<close>

datatype ('tx, 'st) ctl =
  Continue "('tx, 'st) vars"
| Stop "('tx, 'st) observed"

definition body ::
  "'tx env \<Rightarrow> ('tx, 'addr, 'st) batchProcessor \<Rightarrow> 'addr
     \<Rightarrow> ('tx, 'm) pool_Transaction_scheme \<Rightarrow> ('tx, 'st) vars \<Rightarrow> ('tx, 'st) ctl" where
  "body E batchProcessor sequencerAddress tx v =
     (let t = Transaction tx in
      case batchProcessor (processor v) t sequencerAddress of
        (result, st') \<Rightarrow>
          let v' = v\<lparr>processor := st', calls := calls v @ [t]\<rparr> in
          if Failed result then
            (case Err result of
               None \<Rightarrow> Stop (Panic, st', calls v')
             | Some err \<Rightarrow>
                 if InvalidTxErrors E (Error err) then
                   Continue (v'\<lparr>invalidTxsHashes :=
                     append_slice (invalidTxsHashes v') (HashHex E (Transaction tx))\<rparr>)
                 else if errors_Is err (ErrNonceIsBiggerThanAccountNonce E) then
                   Continue v'
                 else if errors_Is err (ErrInvalidCumulativeGas E) then
                   Stop (Return (selectedTxs v') (selectedTxsHashes v') (invalidTxsHashes v') None,
                         st', calls v')
                 else
                   Stop (Return NilSlice NilSlice NilSlice (Some err), st', calls v'))
          else
            Continue (v'\<lparr>selectedTxs := append_slice (selectedTxs v') t,
                          selectedTxsHashes := append_slice (selectedTxsHashes v') (HashHex E t)\<rparr>))"

fun loop ::
  "'tx env \<Rightarrow> ('tx, 'addr, 'st) batchProcessor \<Rightarrow> 'addr
     \<Rightarrow> ('tx, 'm) pool_Transaction_scheme list \<Rightarrow> ('tx, 'st) vars \<Rightarrow> ('tx, 'st) observed" where
  "loop E batchProcessor sequencerAddress [] v =
     (Return (selectedTxs v) (selectedTxsHashes v) (invalidTxsHashes v) None,
      processor v, calls v)"
| "loop E batchProcessor sequencerAddress (tx # rest) v =
     (case body E batchProcessor sequencerAddress tx v of
        Continue v' \<Rightarrow> loop E batchProcessor sequencerAddress rest v'
      | Stop r \<Rightarrow> r)"

text \<open>The declarations before the loop: three nil slices.\<close>

definition init :: "'st \<Rightarrow> ('tx, 'st) vars" where
  "init st = \<lparr>selectedTxs = NilSlice, selectedTxsHashes = NilSlice,
              invalidTxsHashes = NilSlice, processor = st, calls = []\<rparr>"

text \<open>Calling \<open>SortTxs\<close> on a nil \<open>TxSorter\<close> panics before any transaction is processed.\<close>

definition Base_SelectTxs ::
  "'tx env \<Rightarrow> ('tx, 'm) Base \<Rightarrow> ('tx, 'addr, 'st) batchProcessor \<Rightarrow> 'st
     \<Rightarrow> ('tx, 'm) pool_Transaction_scheme list \<Rightarrow> 'addr \<Rightarrow> ('tx, 'st) observed" where
  "Base_SelectTxs E b batchProcessor st pendingTxs sequencerAddress =
     (case TxSorter b of
        None \<Rightarrow> (Panic, st, [])
      | Some SortTxs \<Rightarrow> loop E batchProcessor sequencerAddress (SortTxs pendingTxs) (init st))"

text \<open>
  The variables after the loop has gone through all of a prefix of the sorted
  transactions without returning; \<open>None\<close> if it returned inside the prefix.
\<close>

fun through ::
  "'tx env \<Rightarrow> ('tx, 'addr, 'st) batchProcessor \<Rightarrow> 'addr
     \<Rightarrow> ('tx, 'm) pool_Transaction_scheme list \<Rightarrow> ('tx, 'st) vars \<Rightarrow> ('tx, 'st) vars option" where
  "through E batchProcessor sequencerAddress [] v = Some v"
| "through E batchProcessor sequencerAddress (tx # rest) v =
     (case body E batchProcessor sequencerAddress tx v of
        Continue v' \<Rightarrow> through E batchProcessor sequencerAddress rest v'
      | Stop r \<Rightarrow> None)"

subsection \<open>A concrete processor and pool\<close>

text \<open>
  Transactions are identified with their nonce. The processor's state is the account's
  next nonce: a transaction with that nonce is applied, a lower nonce is rejected with an
  error of the invalid set, a higher one with the nonce-ahead sentinel. The cumulative
  gas is used up after two transactions. Transactions 96 to 99 fail with fixed errors:
  an unknown error (99), an error whose string is in the invalid set and which wraps
  the cumulative-gas sentinel (98), a wrapper of the nonce-ahead sentinel (97), and a
  wrapper of an invalid-set error whose own string is not in the set (96).
\<close>

definition ErrNonceIsSmallerThanAccountNonce :: error where
  "ErrNonceIsSmallerThanAccountNonce = MkError 1 ''low'' None"

definition demo_env :: "nat env" where
  "demo_env = \<lparr>HashHex = (\<lambda>n. if n = 0 then ''0xa0'' else if n = 1 then ''0xb1'' else ''0xcc''),
                InvalidTxErrors = (\<lambda>s. s = ''low'' \<or> s = ''sig''),
                ErrNonceIsBiggerThanAccountNonce = MkError 2 ''high'' None,
                ErrInvalidCumulativeGas = MkError 3 ''gas'' None\<rparr>"

definition demo_processor :: "(nat, nat, nat) batchProcessor" where
  "demo_processor st t addr =
     (if t = 99 then (\<lparr>Failed = True, Err = Some (MkError 4 ''root'' None)\<rparr>, st)
      else if t = 98 then
        (\<lparr>Failed = True, Err = Some (MkError 5 ''sig'' (Some (MkError 3 ''gas'' None)))\<rparr>, st)
      else if t = 97 then
        (\<lparr>Failed = True, Err = Some (MkError 6 ''held'' (Some (MkError 2 ''high'' None)))\<rparr>, st)
      else if t = 96 then
        (\<lparr>Failed = True, Err = Some (MkError 7 ''wrap'' (Some (MkError 1 ''low'' None)))\<rparr>, st)
      else if t < st then (\<lparr>Failed = True, Err = Some ErrNonceIsSmallerThanAccountNonce\<rparr>, st)
      else if st < t then (\<lparr>Failed = True, Err = Some (MkError 2 ''high'' None)\<rparr>, st)
      else if 2 \<le> st then (\<lparr>Failed = True, Err = Some (MkError 3 ''gas'' None)\<rparr>, st)
      else (\<lparr>Failed = False, Err = None\<rparr>, Suc st))"

text \<open>A processor without state: the result depends on the transaction alone.\<close>

definition stateless_processor :: "(nat, nat, nat) batchProcessor" where
  "stateless_processor st t addr =
     (if t = 0 then (\<lparr>Failed = False, Err = None\<rparr>, st)
      else (\<lparr>Failed = True, Err = Some ErrNonceIsSmallerThanAccountNonce\<rparr>, st))"

definition arrival_order :: "(nat, unit) TxSorter" where
  "arrival_order txs = txs"

definition ptx :: "nat \<Rightarrow> nat pool_Transaction" where
  "ptx n = \<lparr>Transaction = n\<rparr>"

section \<open>Properties\<close>

subsection \<open>Slices and evaluation\<close>

lemma append_slice_elems: "append_slice s x = Slice (elems s @ [x])"
  by (cases s) simp_all

lemmas demo_defs = demo_env_def demo_processor_def arrival_order_def ptx_def
  ErrNonceIsSmallerThanAccountNonce_def init_def body_def

subsection \<open>Going through a prefix\<close>

lemma loop_through:
  "through E P a pre v = Some v' \<Longrightarrow> loop E P a (pre @ rest) v = loop E P a rest v'"
  by (induction pre arbitrary: v) (auto split: ctl.splits)

lemma through_snoc:
  "through E P a pre v = Some v' \<Longrightarrow>
   through E P a (pre @ [tx]) v =
     (case body E P a tx v' of Continue w \<Rightarrow> Some w | Stop r \<Rightarrow> None)"
  by (induction pre arbitrary: v) (auto split: ctl.splits)

lemma body_calls:
  "body E P a tx v = Continue v' \<Longrightarrow> calls v' = calls v @ [Transaction tx]"
  by (auto simp: body_def Let_def split: prod.splits if_splits option.splits)

lemma through_calls:
  "through E P a pre v = Some v' \<Longrightarrow> calls v' = calls v @ map Transaction pre"
proof (induction pre arbitrary: v)
  case Nil
  then show ?case by simp
next
  case (Cons tx pre)
  then obtain w where w: "body E P a tx v = Continue w" and t: "through E P a pre w = Some v'"
    by (auto split: ctl.splits)
  from Cons.IH [OF t] body_calls [OF w] show ?case by simp
qed

lemma select_at:
  assumes "TxSorter b = Some SortTxs"
    and "SortTxs pendingTxs = pre @ tx # post"
    and "through E P a pre (init st) = Some v"
  shows "Base_SelectTxs E b P st pendingTxs a =
           (case body E P a tx v of Continue v' \<Rightarrow> loop E P a post v' | Stop r \<Rightarrow> r)"
  using assms by (simp add: Base_SelectTxs_def loop_through)

lemma body_invalid:
  assumes "P (processor v) (Transaction tx) a = (r, st')" "Failed r" "Err r = Some err"
    and "InvalidTxErrors E (Error err)"
  shows "body E P a tx v =
           Continue (v\<lparr>processor := st', calls := calls v @ [Transaction tx],
                       invalidTxsHashes := append_slice (invalidTxsHashes v) (HashHex E (Transaction tx))\<rparr>)"
  using assms by (simp add: body_def Let_def)

lemma body_deferred:
  assumes "P (processor v) (Transaction tx) a = (r, st')" "Failed r" "Err r = Some err"
    and "\<not> InvalidTxErrors E (Error err)"
    and "errors_Is err (ErrNonceIsBiggerThanAccountNonce E)"
  shows "body E P a tx v = Continue (v\<lparr>processor := st', calls := calls v @ [Transaction tx]\<rparr>)"
  using assms by (simp add: body_def Let_def)

lemma body_capacity:
  assumes "P (processor v) (Transaction tx) a = (r, st')" "Failed r" "Err r = Some err"
    and "\<not> InvalidTxErrors E (Error err)"
    and "\<not> errors_Is err (ErrNonceIsBiggerThanAccountNonce E)"
    and "errors_Is err (ErrInvalidCumulativeGas E)"
  shows "body E P a tx v =
           Stop (Return (selectedTxs v) (selectedTxsHashes v) (invalidTxsHashes v) None,
                 st', calls v @ [Transaction tx])"
  using assms by (simp add: body_def Let_def)

lemma body_fatal:
  assumes "P (processor v) (Transaction tx) a = (r, st')" "Failed r" "Err r = Some err"
    and "\<not> InvalidTxErrors E (Error err)"
    and "\<not> errors_Is err (ErrNonceIsBiggerThanAccountNonce E)"
    and "\<not> errors_Is err (ErrInvalidCumulativeGas E)"
  shows "body E P a tx v =
           Stop (Return NilSlice NilSlice NilSlice (Some err), st', calls v @ [Transaction tx])"
  using assms by (simp add: body_def Let_def)

lemma loop_nil_result:
  "through E P a pre v = Some v' \<Longrightarrow>
   loop E P a pre v =
     (Return (selectedTxs v') (selectedTxsHashes v') (invalidTxsHashes v') None,
      processor v', calls v')"
  using loop_through [of E P a pre v v' "[]"] by simp

subsection \<open>The four classes of failure\<close>

text \<open>
  C1. When the loop has gone through positions \<open>0..k-1\<close> (\<open>pre\<close>) without returning and
  the result for the transaction at position \<open>k\<close> fails with an error that reaches the
  cumulative-gas test and passes it, \<open>SelectTxs\<close> returns the three slices as they
  were after position \<open>k-1\<close> with a nil error: the same return as the loop run over
  \<open>pre\<close> alone. The processor was called for positions \<open>0..k\<close> and for no later one.
\<close>

theorem SelectTxs_stops_at_cumulative_gas:
  assumes "TxSorter b = Some SortTxs"
    and "SortTxs pendingTxs = pre @ tx # post"
    and "through E P a pre (init st) = Some v"
    and "P (processor v) (Transaction tx) a = (r, st')"
    and "Failed r" and "Err r = Some err"
    and "\<not> InvalidTxErrors E (Error err)"
    and "\<not> errors_Is err (ErrNonceIsBiggerThanAccountNonce E)"
    and "errors_Is err (ErrInvalidCumulativeGas E)"
  shows "Base_SelectTxs E b P st pendingTxs a =
           (Return (selectedTxs v) (selectedTxsHashes v) (invalidTxsHashes v) None,
            st', map Transaction (pre @ [tx]))
         \<and> fst (Base_SelectTxs E b P st pendingTxs a) = fst (loop E P a pre (init st))"
proof -
  have c: "calls v = map Transaction pre"
    using through_calls [OF assms(3)] by (simp add: init_def)
  have "Base_SelectTxs E b P st pendingTxs a =
          (Return (selectedTxs v) (selectedTxsHashes v) (invalidTxsHashes v) None,
           st', calls v @ [Transaction tx])"
    using select_at [OF assms(1-3)] body_capacity [of P v tx a r st' err E] assms(4-9) by simp
  then show ?thesis
    using c loop_nil_result [OF assms(3)] by simp
qed

theorem SelectTxs_stops_at_cumulative_gas_witness:
  "Base_SelectTxs demo_env \<lparr>TxSorter = Some arrival_order\<rparr> demo_processor 0
      [ptx 0, ptx 0, ptx 5, ptx 1, ptx 2, ptx 3] (7::nat) =
    (Return (Slice [0, 1]) (Slice [''0xa0'', ''0xb1'']) (Slice [''0xa0'']) None,
     2, [0, 0, 5, 1, 2])"
proof -
  let ?v = "\<lparr>selectedTxs = Slice [0, 1], selectedTxsHashes = Slice [''0xa0'', ''0xb1''],
             invalidTxsHashes = Slice [''0xa0''], processor = 2, calls = [0, 0, 5, 1::nat]\<rparr>"
  let ?r = "\<lparr>Failed = True, Err = Some (MkError 3 ''gas'' None)\<rparr>"
  have 1: "TxSorter \<lparr>TxSorter = Some arrival_order\<rparr> = Some arrival_order" by simp
  have 2: "arrival_order [ptx 0, ptx 0, ptx 5, ptx 1, ptx 2, ptx 3] =
             [ptx 0, ptx 0, ptx 5, ptx 1] @ ptx 2 # [ptx 3]"
    by (simp add: arrival_order_def)
  have 3: "through demo_env demo_processor (7::nat) [ptx 0, ptx 0, ptx 5, ptx 1] (init 0) = Some ?v"
    by (simp add: demo_defs)
  have 4: "demo_processor (processor ?v) (Transaction (ptx 2)) (7::nat) = (?r, 2)"
    by (simp add: demo_defs)
  have 5: "Failed ?r" by simp
  have 6: "Err ?r = Some (MkError 3 ''gas'' None)" by simp
  have 7: "\<not> InvalidTxErrors demo_env (Error (MkError 3 ''gas'' None))"
    by (simp add: demo_env_def)
  have 8: "\<not> errors_Is (MkError 3 ''gas'' None) (ErrNonceIsBiggerThanAccountNonce demo_env)"
    by (simp add: demo_env_def)
  have 9: "errors_Is (MkError 3 ''gas'' None) (ErrInvalidCumulativeGas demo_env)"
    by (simp add: demo_env_def)
  from SelectTxs_stops_at_cumulative_gas
         [where SortTxs = arrival_order and P = demo_processor and E = demo_env and v = ?v
            and r = ?r, OF 1 2 3 4 5 6 7 8 9]
  show ?thesis by (simp add: ptx_def)
qed


text \<open>
  C2. When the result at position \<open>k\<close> fails with an error whose string is not in
  \<open>InvalidTxErrors\<close> and which is neither sentinel, \<open>SelectTxs\<close> returns three nil
  slices and that error: whatever positions \<open>0..k-1\<close> had accumulated is dropped.
\<close>

theorem SelectTxs_aborts_on_unknown_error:
  assumes "TxSorter b = Some SortTxs"
    and "SortTxs pendingTxs = pre @ tx # post"
    and "through E P a pre (init st) = Some v"
    and "P (processor v) (Transaction tx) a = (r, st')"
    and "Failed r" and "Err r = Some err"
    and "\<not> InvalidTxErrors E (Error err)"
    and "\<not> errors_Is err (ErrNonceIsBiggerThanAccountNonce E)"
    and "\<not> errors_Is err (ErrInvalidCumulativeGas E)"
  shows "Base_SelectTxs E b P st pendingTxs a =
           (Return NilSlice NilSlice NilSlice (Some err), st', map Transaction (pre @ [tx]))"
proof -
  have "calls v = map Transaction pre"
    using through_calls [OF assms(3)] by (simp add: init_def)
  then show ?thesis
    using select_at [OF assms(1-3)] body_fatal [of P v tx a r st' err E] assms(4-9) by simp
qed

theorem SelectTxs_aborts_on_unknown_error_witness:
  "Base_SelectTxs demo_env \<lparr>TxSorter = Some arrival_order\<rparr> demo_processor 0
      [ptx 0, ptx 0, ptx 5, ptx 99, ptx 1] (7::nat) =
    (Return NilSlice NilSlice NilSlice (Some (MkError 4 ''root'' None)), 1, [0, 0, 5, 99])"
proof -
  let ?v = "\<lparr>selectedTxs = Slice [0], selectedTxsHashes = Slice [''0xa0''],
             invalidTxsHashes = Slice [''0xa0''], processor = 1, calls = [0, 0, 5::nat]\<rparr>"
  let ?r = "\<lparr>Failed = True, Err = Some (MkError 4 ''root'' None)\<rparr>"
  have 1: "TxSorter \<lparr>TxSorter = Some arrival_order\<rparr> = Some arrival_order" by simp
  have 2: "arrival_order [ptx 0, ptx 0, ptx 5, ptx 99, ptx 1] =
             [ptx 0, ptx 0, ptx 5] @ ptx 99 # [ptx 1]"
    by (simp add: arrival_order_def)
  have 3: "through demo_env demo_processor (7::nat) [ptx 0, ptx 0, ptx 5] (init 0) = Some ?v"
    by (simp add: demo_defs)
  have 4: "demo_processor (processor ?v) (Transaction (ptx 99)) (7::nat) = (?r, 1)"
    by (simp add: demo_defs)
  have 5: "Failed ?r" by simp
  have 6: "Err ?r = Some (MkError 4 ''root'' None)" by simp
  have 7: "\<not> InvalidTxErrors demo_env (Error (MkError 4 ''root'' None))"
    by (simp add: demo_env_def)
  have 8: "\<not> errors_Is (MkError 4 ''root'' None) (ErrNonceIsBiggerThanAccountNonce demo_env)"
    by (simp add: demo_env_def)
  have 9: "\<not> errors_Is (MkError 4 ''root'' None) (ErrInvalidCumulativeGas demo_env)"
    by (simp add: demo_env_def)
  from SelectTxs_aborts_on_unknown_error
         [where SortTxs = arrival_order and P = demo_processor and E = demo_env and v = ?v
            and r = ?r, OF 1 2 3 4 5 6 7 8 9]
  show ?thesis by (simp add: ptx_def)
qed



text \<open>
  C4. When the result at position \<open>k\<close> fails with an error that is not in
  \<open>InvalidTxErrors\<close> and is (or wraps) the nonce-ahead sentinel, that iteration
  changes none of the three slices, and the loop goes on with position \<open>k+1\<close>.
\<close>

theorem SelectTxs_skips_nonce_ahead:
  assumes "TxSorter b = Some SortTxs"
    and "SortTxs pendingTxs = pre @ tx # post"
    and "through E P a pre (init st) = Some v"
    and "P (processor v) (Transaction tx) a = (r, st')"
    and "Failed r" and "Err r = Some err"
    and "\<not> InvalidTxErrors E (Error err)"
    and "errors_Is err (ErrNonceIsBiggerThanAccountNonce E)"
  shows "through E P a (pre @ [tx]) (init st) =
           Some (v\<lparr>processor := st', calls := map Transaction (pre @ [tx])\<rparr>)
         \<and> Base_SelectTxs E b P st pendingTxs a =
             loop E P a post (v\<lparr>processor := st', calls := map Transaction (pre @ [tx])\<rparr>)"
proof -
  have c: "calls v = map Transaction pre"
    using through_calls [OF assms(3)] by (simp add: init_def)
  have b: "body E P a tx v =
             Continue (v\<lparr>processor := st', calls := map Transaction (pre @ [tx])\<rparr>)"
    using body_deferred [of P v tx a r st' err E] assms(4-8) c by simp
  show ?thesis
    using through_snoc [OF assms(3)] select_at [OF assms(1-3)] b by simp
qed

theorem SelectTxs_skips_nonce_ahead_witness:
  "Base_SelectTxs demo_env \<lparr>TxSorter = Some arrival_order\<rparr> demo_processor 0
      [ptx 0, ptx 5, ptx 1] (7::nat) =
    (Return (Slice [0, 1]) (Slice [''0xa0'', ''0xb1'']) NilSlice None, 2, [0, 5, 1])"
proof -
  let ?v = "\<lparr>selectedTxs = Slice [0], selectedTxsHashes = Slice [''0xa0''],
             invalidTxsHashes = NilSlice, processor = 1, calls = [0::nat]\<rparr>"
  let ?r = "\<lparr>Failed = True, Err = Some (MkError 2 ''high'' None)\<rparr>"
  have 1: "TxSorter \<lparr>TxSorter = Some arrival_order\<rparr> = Some arrival_order" by simp
  have 2: "arrival_order [ptx 0, ptx 5, ptx 1] = [ptx 0] @ ptx 5 # [ptx 1]"
    by (simp add: arrival_order_def)
  have 3: "through demo_env demo_processor (7::nat) [ptx 0] (init 0) = Some ?v"
    by (simp add: demo_defs)
  have 4: "demo_processor (processor ?v) (Transaction (ptx 5)) (7::nat) = (?r, 1)"
    by (simp add: demo_defs)
  have 5: "Failed ?r" by simp
  have 6: "Err ?r = Some (MkError 2 ''high'' None)" by simp
  have 7: "\<not> InvalidTxErrors demo_env (Error (MkError 2 ''high'' None))"
    by (simp add: demo_env_def)
  have 8: "errors_Is (MkError 2 ''high'' None) (ErrNonceIsBiggerThanAccountNonce demo_env)"
    by (simp add: demo_env_def)
  from SelectTxs_skips_nonce_ahead
         [where SortTxs = arrival_order and P = demo_processor and E = demo_env and v = ?v
            and r = ?r, OF 1 2 3 4 5 6 7 8, THEN conjunct2]
  show ?thesis by (simp add: demo_defs)
qed

subsection \<open>The pass-through selector\<close>

lemma AcceptAll_loop_map:
  "AcceptAll_loop E txs (Slice xs) (Slice hs) =
     (Slice (xs @ map Transaction txs),
      Slice (hs @ map (\<lambda>tx. HashHex E (Transaction tx)) txs))"
  by (induction txs arbitrary: xs hs) simp_all

text \<open>
  C5. For every pending list, \<open>AcceptAll.SelectTxs\<close> returns the transactions of the
  list in input order (so as many as the list has), their hashes in the same order, a
  nil \<open>invalidTxsHashes\<close> (length 0) and a nil error; the processor is never called
  and its state is untouched.
\<close>

theorem AcceptAll_SelectTxs_copies_all:
  "AcceptAll_SelectTxs E P st pendingTxs a =
     (Return (Slice (map Transaction pendingTxs))
             (Slice (map (\<lambda>tx. HashHex E (Transaction tx)) pendingTxs))
             NilSlice None,
      st, [])"
  by (simp add: AcceptAll_SelectTxs_def make_slice_def AcceptAll_loop_map)

subsection \<open>Alignment of the two selected slices\<close>

lemma body_aligned:
  assumes "elems (selectedTxsHashes v) = map (HashHex E) (elems (selectedTxs v))"
    and "body E P a tx v = Continue v'"
  shows "elems (selectedTxsHashes v') = map (HashHex E) (elems (selectedTxs v'))"
  using assms
  by (auto simp: body_def Let_def append_slice_elems
           split: prod.splits if_splits option.splits)

lemma body_Stop_aligned:
  assumes "elems (selectedTxsHashes v) = map (HashHex E) (elems (selectedTxs v))"
    and "body E P a tx v = Stop (Return s h i e, st', cs)"
  shows "elems h = map (HashHex E) (elems s)"
  using assms
  by (auto simp: body_def Let_def split: prod.splits if_splits option.splits)

lemma loop_aligned:
  assumes "elems (selectedTxsHashes v) = map (HashHex E) (elems (selectedTxs v))"
    and "loop E P a txs v = (Return s h i e, st', cs)"
  shows "elems h = map (HashHex E) (elems s)"
  using assms
proof (induction txs arbitrary: v)
  case Nil
  then show ?case by auto
next
  case (Cons tx txs)
  show ?case
  proof (cases "body E P a tx v")
    case (Continue w)
    with Cons.prems(2) have l: "loop E P a txs w = (Return s h i e, st', cs)" by simp
    show ?thesis by (rule Cons.IH [OF body_aligned [OF Cons.prems(1) Continue] l])
  next
    case (Stop r)
    with Cons.prems(2) have b: "body E P a tx v = Stop (Return s h i e, st', cs)" by simp
    show ?thesis by (rule body_Stop_aligned [OF Cons.prems(1) b])
  qed
qed

text \<open>
  C6. Whenever either selector returns (rather than panics), the two selected slices
  have the same length and the hash at each index is the hex hash of the transaction
  at that index.
\<close>

theorem selected_slices_aligned:
  assumes "fst (AcceptAll_SelectTxs E P st pendingTxs a) = Return s h i e
           \<or> fst (Base_SelectTxs E b P st pendingTxs a) = Return s h i e"
  shows "length (elems h) = length (elems s)
         \<and> (\<forall>n < length (elems s). elems h ! n = HashHex E (elems s ! n))"
proof -
  have "elems h = map (HashHex E) (elems s)"
    using assms
  proof
    assume "fst (AcceptAll_SelectTxs E P st pendingTxs a) = Return s h i e"
    then show ?thesis
      by (auto simp: AcceptAll_SelectTxs_def make_slice_def AcceptAll_loop_map)
  next
    assume r: "fst (Base_SelectTxs E b P st pendingTxs a) = Return s h i e"
    show ?thesis
    proof (cases "TxSorter b")
      case None
      with r show ?thesis by (simp add: Base_SelectTxs_def)
    next
      case (Some SortTxs)
      obtain st' cs where
        "loop E P a (SortTxs pendingTxs) (init st) = (Return s h i e, st', cs)"
        using r Some by (cases "loop E P a (SortTxs pendingTxs) (init st)")
                        (auto simp: Base_SelectTxs_def)
      then show ?thesis
        using loop_aligned [of "init st" E P a "SortTxs pendingTxs" s h i e st' cs]
        by (simp add: init_def)
    qed
  qed
  then show ?thesis by simp
qed

theorem selected_slices_aligned_witness:
  "length (elems (Slice [''0xa0'', ''0xb1''])) = length (elems (Slice [0, 1::nat]))
   \<and> elems (Slice [''0xa0'', ''0xb1'']) ! 0 = HashHex demo_env (elems (Slice [0, 1::nat]) ! 0)
   \<and> elems (Slice [''0xa0'', ''0xb1'']) ! 1 = HashHex demo_env (elems (Slice [0, 1::nat]) ! 1)"
proof -
  have "fst (Base_SelectTxs demo_env \<lparr>TxSorter = Some arrival_order\<rparr> demo_processor 0
               [ptx 0, ptx 0, ptx 5, ptx 1, ptx 2, ptx 3] (7::nat)) =
          Return (Slice [0, 1]) (Slice [''0xa0'', ''0xb1'']) (Slice [''0xa0'']) None"
    by (simp add: Base_SelectTxs_def demo_defs)
  note al = selected_slices_aligned [OF disjI2, OF this]
  note ix = al [THEN conjunct2, rule_format]
  from al [THEN conjunct1] ix [of 0] ix [of 1]
  show ?thesis by simp
qed

subsection \<open>The two lists of hashes\<close>

lemma subseq_set_subset: "subseq xs ys \<Longrightarrow> set xs \<subseteq> set ys"
  using list_emb_set [of "(=)" xs ys] by auto

lemma body_Continue_hashes:
  assumes "body E P a tx v = Continue v'"
  shows "(elems (selectedTxsHashes v') = elems (selectedTxsHashes v) @ [HashHex E (Transaction tx)]
            \<and> elems (invalidTxsHashes v') = elems (invalidTxsHashes v))
         \<or> (elems (selectedTxsHashes v') = elems (selectedTxsHashes v)
            \<and> elems (invalidTxsHashes v') = elems (invalidTxsHashes v) @ [HashHex E (Transaction tx)])
         \<or> (elems (selectedTxsHashes v') = elems (selectedTxsHashes v)
            \<and> elems (invalidTxsHashes v') = elems (invalidTxsHashes v))"
  using assms
  by (auto simp: body_def Let_def append_slice_elems
           split: prod.splits if_splits option.splits)

lemma body_Stop_hashes:
  assumes "body E P a tx v = Stop (Return s h i e, st', cs)"
  shows "(h = NilSlice \<and> i = NilSlice)
         \<or> (h = selectedTxsHashes v \<and> i = invalidTxsHashes v)"
  using assms
  by (auto simp: body_def Let_def split: prod.splits if_splits option.splits)

lemma loop_hashes:
  assumes "loop E P a txs v = (Return s h i e, st', cs)"
  shows "(h = NilSlice \<and> i = NilSlice)
         \<or> (\<exists>hs is. elems h = elems (selectedTxsHashes v) @ hs
               \<and> elems i = elems (invalidTxsHashes v) @ is
               \<and> subseq hs (map (\<lambda>tx. HashHex E (Transaction tx)) txs)
               \<and> subseq is (map (\<lambda>tx. HashHex E (Transaction tx)) txs)
               \<and> (distinct (map (\<lambda>tx. HashHex E (Transaction tx)) txs)
                    \<longrightarrow> set hs \<inter> set is = {}))"
  using assms
proof (induction txs arbitrary: v)
  case Nil
  then show ?case by auto
next
  case (Cons tx txs)
  let ?H = "\<lambda>tx. HashHex E (Transaction tx)"
  show ?case
  proof (cases "body E P a tx v")
    case (Stop r)
    with Cons.prems have "body E P a tx v = Stop (Return s h i e, st', cs)" by simp
    from body_Stop_hashes [OF this] show ?thesis by auto
  next
    case (Continue w)
    with Cons.prems have l: "loop E P a txs w = (Return s h i e, st', cs)" by simp
    from Cons.IH [OF l] show ?thesis
    proof
      assume "h = NilSlice \<and> i = NilSlice"
      then show ?thesis by simp
    next
      assume "\<exists>hs is. elems h = elems (selectedTxsHashes w) @ hs
               \<and> elems i = elems (invalidTxsHashes w) @ is
               \<and> subseq hs (map ?H txs) \<and> subseq is (map ?H txs)
               \<and> (distinct (map ?H txs) \<longrightarrow> set hs \<inter> set is = {})"
      then obtain hs "is" where
        h: "elems h = elems (selectedTxsHashes w) @ hs"
        and i: "elems i = elems (invalidTxsHashes w) @ is"
        and sh: "subseq hs (map ?H txs)" and si: "subseq is (map ?H txs)"
        and d: "distinct (map ?H txs) \<longrightarrow> set hs \<inter> set is = {}"
        by blast
      have nh: "distinct (map ?H (tx # txs)) \<Longrightarrow> ?H tx \<notin> set hs"
        using subseq_set_subset [OF sh] by auto
      have ni: "distinct (map ?H (tx # txs)) \<Longrightarrow> ?H tx \<notin> set is"
        using subseq_set_subset [OF si] by auto
      from body_Continue_hashes [OF Continue]
      consider
        (sel) "elems (selectedTxsHashes w) = elems (selectedTxsHashes v) @ [?H tx]"
              "elems (invalidTxsHashes w) = elems (invalidTxsHashes v)"
      | (inv) "elems (selectedTxsHashes w) = elems (selectedTxsHashes v)"
              "elems (invalidTxsHashes w) = elems (invalidTxsHashes v) @ [?H tx]"
      | (skip) "elems (selectedTxsHashes w) = elems (selectedTxsHashes v)"
               "elems (invalidTxsHashes w) = elems (invalidTxsHashes v)"
        by blast
      then show ?thesis
      proof cases
        case sel
        have "elems h = elems (selectedTxsHashes v) @ (?H tx # hs)"
          and "elems i = elems (invalidTxsHashes v) @ is"
          and "subseq (?H tx # hs) (map ?H (tx # txs))"
          and "subseq is (map ?H (tx # txs))"
          and "distinct (map ?H (tx # txs)) \<longrightarrow> set (?H tx # hs) \<inter> set is = {}"
          using h i sh si d ni sel by auto
        then show ?thesis by blast
      next
        case inv
        have "elems h = elems (selectedTxsHashes v) @ hs"
          and "elems i = elems (invalidTxsHashes v) @ (?H tx # is)"
          and "subseq hs (map ?H (tx # txs))"
          and "subseq (?H tx # is) (map ?H (tx # txs))"
          and "distinct (map ?H (tx # txs)) \<longrightarrow> set hs \<inter> set (?H tx # is) = {}"
          using h i sh si d nh inv by auto
        then show ?thesis by blast
      next
        case skip
        have "elems h = elems (selectedTxsHashes v) @ hs"
          and "elems i = elems (invalidTxsHashes v) @ is"
          and "subseq hs (map ?H (tx # txs))"
          and "subseq is (map ?H (tx # txs))"
          and "distinct (map ?H (tx # txs)) \<longrightarrow> set hs \<inter> set is = {}"
          using h i sh si d skip by auto
        then show ?thesis by blast
      qed
    qed
  qed
qed

text \<open>
  C7, as the code has it. Both lists of hashes are subsequences of the hashes of the
  sorted transactions, so each keeps the processing order. A hash is in at most one
  of them when no two transactions of the sorted sequence have the same hash; a
  transaction that is in the sequence twice can be selected the first time and
  rejected as invalid the second time.
\<close>

theorem hashes_in_order_and_disjoint:
  assumes "TxSorter b = Some SortTxs"
    and "Base_SelectTxs E b P st pendingTxs a = (Return s h i e, st', cs)"
  shows "subseq (elems h) (map (\<lambda>tx. HashHex E (Transaction tx)) (SortTxs pendingTxs))
         \<and> subseq (elems i) (map (\<lambda>tx. HashHex E (Transaction tx)) (SortTxs pendingTxs))
         \<and> (distinct (map (\<lambda>tx. HashHex E (Transaction tx)) (SortTxs pendingTxs))
              \<longrightarrow> set (elems h) \<inter> set (elems i) = {})"
proof -
  have "loop E P a (SortTxs pendingTxs) (init st) = (Return s h i e, st', cs)"
    using assms by (simp add: Base_SelectTxs_def)
  from loop_hashes [OF this] show ?thesis
    by (auto simp: init_def)
qed

theorem hashes_in_order_and_disjoint_witness:
  "subseq (elems (Slice [''0xa0'', ''0xb1'']))
     (map (\<lambda>tx. HashHex demo_env (Transaction tx)) (arrival_order [ptx 0, ptx 98, ptx 1]))
   \<and> subseq (elems (Slice [''0xcc'']))
     (map (\<lambda>tx. HashHex demo_env (Transaction tx)) (arrival_order [ptx 0, ptx 98, ptx 1]))
   \<and> distinct (map (\<lambda>tx. HashHex demo_env (Transaction tx)) (arrival_order [ptx 0, ptx 98, ptx 1]))
   \<and> set (elems (Slice [''0xa0'', ''0xb1''])) \<inter> set (elems (Slice [''0xcc''])) = {}"
proof -
  have 1: "TxSorter \<lparr>TxSorter = Some arrival_order\<rparr> = Some arrival_order" by simp
  have 2: "Base_SelectTxs demo_env \<lparr>TxSorter = Some arrival_order\<rparr> demo_processor 0
             [ptx 0, ptx 98, ptx 1] (7::nat) =
           (Return (Slice [0, 1]) (Slice [''0xa0'', ''0xb1'']) (Slice [''0xcc'']) None,
            2, [0, 98, 1])"
    by (simp add: Base_SelectTxs_def demo_defs)
  have 3: "distinct (map (\<lambda>tx. HashHex demo_env (Transaction tx))
                       (arrival_order [ptx 0, ptx 98, ptx 1]))"
    by (simp add: demo_defs)
  from hashes_in_order_and_disjoint [OF 1 2] 3 show ?thesis by blast
qed

text \<open>
  The same transaction twice in the pending list: the first is selected, the replay is
  rejected with the nonce-too-low error, and its hash is in both lists.
\<close>

theorem hash_in_both_lists_counterexample:
  "Base_SelectTxs demo_env \<lparr>TxSorter = Some arrival_order\<rparr> demo_processor 0
     [ptx 0, ptx 0] (7::nat) =
     (Return (Slice [0]) (Slice [''0xa0'']) (Slice [''0xa0'']) None, 1, [0, 0])
   \<and> set (elems (Slice [''0xa0''])) \<inter> set (elems (Slice [''0xa0''])) \<noteq> {}"
  by (simp add: Base_SelectTxs_def demo_defs)

subsection \<open>Construction\<close>

text \<open>
  C8 (what the code does). A sorter type that is neither \<open>ByCostAndTime\<close> nor
  \<open>ByCostAndNonce\<close> makes \<open>NewTxSelectorBase\<close> return a selector whose \<open>TxSorter\<close> is
  nil, with no error; its \<open>SelectTxs\<close> then panics before processing anything.
\<close>

theorem NewTxSelectorBase_unknown_type_nil_sorter:
  assumes "TxSorterType cfg \<noteq> ByCostAndTime" and "TxSorterType cfg \<noteq> ByCostAndNonce"
  shows "TxSorter (NewTxSelectorBase ByCostAndTime ByCostAndNonce s1 s2 cfg) = None
         \<and> Base_SelectTxs E (NewTxSelectorBase ByCostAndTime ByCostAndNonce s1 s2 cfg)
               P st pendingTxs a = (Panic, st, [])"
  using assms by (simp add: NewTxSelectorBase_def Base_SelectTxs_def)

theorem NewTxSelectorBase_unknown_type_nil_sorter_witness:
  "TxSorter (NewTxSelectorBase ''bycostandtime'' ''bycostandnonce'' arrival_order arrival_order
               \<lparr>TxSorterType = ''''\<rparr>) = None
   \<and> Base_SelectTxs demo_env
        (NewTxSelectorBase ''bycostandtime'' ''bycostandnonce'' arrival_order arrival_order
               \<lparr>TxSorterType = ''''\<rparr>)
        demo_processor 0 [ptx 0, ptx 1] (7::nat) = (Panic, 0, [])"
proof -
  have 1: "TxSorterType \<lparr>TxSorterType = ''''\<rparr> \<noteq> ''bycostandtime''" by simp
  have 2: "TxSorterType \<lparr>TxSorterType = ''''\<rparr> \<noteq> ''bycostandnonce''" by simp
  show ?thesis by (rule NewTxSelectorBase_unknown_type_nil_sorter [OF 1 2])
qed

subsection \<open>Running the selection twice\<close>

lemma body_pure_Continue:
  assumes "\<forall>s t x. snd (P s t x) = s" and "body E P a tx v = Continue v'"
  shows "processor v' = processor v"
proof -
  obtain r s' where p: "P (processor v) (Transaction tx) a = (r, s')"
    by (cases "P (processor v) (Transaction tx) a")
  with assms(1) have "s' = processor v" by (metis snd_conv)
  with p assms(2) show ?thesis
    by (auto simp: body_def Let_def split: if_splits option.splits)
qed

lemma body_pure_Stop:
  assumes "\<forall>s t x. snd (P s t x) = s" and "body E P a tx v = Stop (r, st', cs)"
  shows "st' = processor v"
proof -
  obtain r s' where p: "P (processor v) (Transaction tx) a = (r, s')"
    by (cases "P (processor v) (Transaction tx) a")
  with assms(1) have "s' = processor v" by (metis snd_conv)
  with p assms(2) show ?thesis
    by (auto simp: body_def Let_def split: if_splits option.splits)
qed

lemma loop_pure:
  assumes "\<forall>s t x. snd (P s t x) = s" and "loop E P a txs v = (r, st', cs)"
  shows "st' = processor v"
  using assms(2)
proof (induction txs arbitrary: v)
  case Nil
  then show ?case by auto
next
  case (Cons tx txs)
  show ?case
  proof (cases "body E P a tx v")
    case (Continue w)
    with Cons.prems have "loop E P a txs w = (r, st', cs)" by simp
    from Cons.IH [OF this] body_pure_Continue [OF assms(1) Continue] show ?thesis by simp
  next
    case (Stop x)
    with Cons.prems have "body E P a tx v = Stop (r, st', cs)" by simp
    from body_pure_Stop [OF assms(1) this] show ?thesis .
  qed
qed

lemma body_state_independent:
  assumes "\<forall>s s' t x. fst (P s t x) = fst (P s' t x)"
  shows "(case body E P a tx v of
            Continue w \<Rightarrow>
              body E P a tx (v\<lparr>processor := s1\<rparr>) =
                Continue (w\<lparr>processor := snd (P s1 (Transaction tx) a)\<rparr>)
          | Stop (r, st', cs) \<Rightarrow>
              body E P a tx (v\<lparr>processor := s1\<rparr>) =
                Stop (r, snd (P s1 (Transaction tx) a), cs))"
proof -
  obtain r s' where p: "P (processor v) (Transaction tx) a = (r, s')"
    by (cases "P (processor v) (Transaction tx) a")
  obtain r2 s2 where q: "P s1 (Transaction tx) a = (r2, s2)"
    by (cases "P s1 (Transaction tx) a")
  have "r2 = r" using assms p q by (metis fst_conv)
  with p q show ?thesis
    by (auto simp: body_def Let_def split: if_splits option.splits)
qed

lemma loop_state_independent:
  assumes "\<forall>s s' t x. fst (P s t x) = fst (P s' t x)"
    and "loop E P a txs v = (r, st', cs)"
  shows "\<exists>s2. loop E P a txs (v\<lparr>processor := s1\<rparr>) = (r, s2, cs)"
  using assms(2)
proof (induction txs arbitrary: v s1)
  case Nil
  then show ?case by auto
next
  case (Cons tx txs)
  note bi = body_state_independent [OF assms(1), where E = E and a = a and tx = tx
                                      and v = v and ?s1.0 = s1]
  show ?case
  proof (cases "body E P a tx v")
    case (Continue w)
    with Cons.prems have l: "loop E P a txs w = (r, st', cs)" by simp
    from bi Continue
    have b: "body E P a tx (v\<lparr>processor := s1\<rparr>) =
               Continue (w\<lparr>processor := snd (P s1 (Transaction tx) a)\<rparr>)"
      by simp
    from Cons.IH [OF l, of "snd (P s1 (Transaction tx) a)"] b show ?thesis by simp
  next
    case (Stop x)
    with Cons.prems have "body E P a tx v = Stop (r, st', cs)" by simp
    with bi show ?thesis by simp
  qed
qed

text \<open>
  C9. The batch processor is stateful in the model, so running \<open>SelectTxs\<close> twice
  means starting the second run in the state the first one left. If
  \<open>ProcessTransaction\<close> has no side effect (it leaves the state as it is), or if its
  result is a function of its arguments alone (it does not depend on the state), the
  second run on the same pending list and address returns what the first returned and
  makes the same calls. The sorter is a function of the pending list.
\<close>

theorem SelectTxs_twice_same_output:
  assumes "(\<forall>s t x. snd (P s t x) = s) \<or> (\<forall>s s' t x. fst (P s t x) = fst (P s' t x))"
    and "Base_SelectTxs E b P st pendingTxs a = (out, st1, cs)"
  shows "fst (Base_SelectTxs E b P st1 pendingTxs a) = out
         \<and> snd (snd (Base_SelectTxs E b P st1 pendingTxs a)) = cs"
proof (cases "TxSorter b")
  case None
  with assms(2) show ?thesis by (auto simp: Base_SelectTxs_def)
next
  case (Some SortTxs)
  with assms(2) have l: "loop E P a (SortTxs pendingTxs) (init st) = (out, st1, cs)"
    by (simp add: Base_SelectTxs_def)
  from assms(1) show ?thesis
  proof
    assume pure: "\<forall>s t x. snd (P s t x) = s"
    from loop_pure [OF pure l] have "st1 = st" by (simp add: init_def)
    with assms(2) show ?thesis by simp
  next
    assume "\<forall>s s' t x. fst (P s t x) = fst (P s' t x)"
    from loop_state_independent [OF this l, of st1]
    obtain s2 where "loop E P a (SortTxs pendingTxs) (init st1) = (out, s2, cs)"
      by (auto simp: init_def)
    with Some show ?thesis by (simp add: Base_SelectTxs_def)
  qed
qed

theorem SelectTxs_twice_same_output_witness:
  "fst (Base_SelectTxs demo_env \<lparr>TxSorter = Some arrival_order\<rparr> stateless_processor 0
          [ptx 0, ptx 1] (7::nat)) =
     Return (Slice [0]) (Slice [''0xa0'']) (Slice [''0xb1'']) None
   \<and> snd (snd (Base_SelectTxs demo_env \<lparr>TxSorter = Some arrival_order\<rparr> stateless_processor 0
          [ptx 0, ptx 1] (7::nat))) = [0, 1]"
proof -
  have 1: "(\<forall>s t x. snd (stateless_processor s t x) = s)
           \<or> (\<forall>s s' t x. fst (stateless_processor s t x) = fst (stateless_processor s' t x))"
    by (simp add: stateless_processor_def)
  have 2: "Base_SelectTxs demo_env \<lparr>TxSorter = Some arrival_order\<rparr> stateless_processor 0
             [ptx 0, ptx 1] (7::nat) =
           (Return (Slice [0]) (Slice [''0xa0'']) (Slice [''0xb1'']) None, 0, [0, 1])"
    by (simp add: Base_SelectTxs_def stateless_processor_def demo_defs)
  show ?thesis by (rule SelectTxs_twice_same_output [OF 1 2])
qed

subsection \<open>Order of the tests on a failure\<close>

lemma errors_Is_refl: "errors_Is e e"
proof (cases e)
  case (MkError i m u)
  then show ?thesis by (cases u) simp_all
qed

lemma errors_Is_wrapped:
  "Unwrap err = Some e \<Longrightarrow> errors_Is e target \<Longrightarrow> errors_Is err target"
  by (cases err) simp

text \<open>
  C10. On a failure at position \<open>k\<close> the string of the error is looked up in
  \<open>InvalidTxErrors\<close> first: when it is there, the hash is recorded as invalid and the
  loop goes on, whatever \<open>errors.Is\<close> says about the two sentinels. Only otherwise is
  the error compared with the nonce-ahead sentinel, then with the cumulative-gas
  sentinel; an error matching neither is returned. The lookup reads the string of the
  error itself; \<open>errors.Is\<close> also holds for an error that wraps its target.
\<close>

theorem classification_precedence:
  assumes "TxSorter b = Some SortTxs"
    and "SortTxs pendingTxs = pre @ tx # post"
    and "through E P a pre (init st) = Some v"
    and "P (processor v) (Transaction tx) a = (r, st')"
    and "Failed r" and "Err r = Some err"
  shows "(InvalidTxErrors E (Error err) \<longrightarrow>
            Base_SelectTxs E b P st pendingTxs a =
              loop E P a post
                (v\<lparr>processor := st', calls := calls v @ [Transaction tx],
                    invalidTxsHashes :=
                      append_slice (invalidTxsHashes v) (HashHex E (Transaction tx))\<rparr>))
         \<and> (\<not> InvalidTxErrors E (Error err)
              \<and> errors_Is err (ErrNonceIsBiggerThanAccountNonce E) \<longrightarrow>
            Base_SelectTxs E b P st pendingTxs a =
              loop E P a post (v\<lparr>processor := st', calls := calls v @ [Transaction tx]\<rparr>))
         \<and> (\<not> InvalidTxErrors E (Error err)
              \<and> \<not> errors_Is err (ErrNonceIsBiggerThanAccountNonce E)
              \<and> errors_Is err (ErrInvalidCumulativeGas E) \<longrightarrow>
            Base_SelectTxs E b P st pendingTxs a =
              (Return (selectedTxs v) (selectedTxsHashes v) (invalidTxsHashes v) None,
               st', calls v @ [Transaction tx]))
         \<and> (\<not> InvalidTxErrors E (Error err)
              \<and> \<not> errors_Is err (ErrNonceIsBiggerThanAccountNonce E)
              \<and> \<not> errors_Is err (ErrInvalidCumulativeGas E) \<longrightarrow>
            Base_SelectTxs E b P st pendingTxs a =
              (Return NilSlice NilSlice NilSlice (Some err), st', calls v @ [Transaction tx]))
         \<and> (\<forall>e target. Unwrap err = Some e \<and> errors_Is e target \<longrightarrow> errors_Is err target)
         \<and> errors_Is err err"
proof -
  note at = select_at [OF assms(1-3)]
  have "InvalidTxErrors E (Error err) \<Longrightarrow>
          Base_SelectTxs E b P st pendingTxs a =
            loop E P a post
              (v\<lparr>processor := st', calls := calls v @ [Transaction tx],
                  invalidTxsHashes :=
                    append_slice (invalidTxsHashes v) (HashHex E (Transaction tx))\<rparr>)"
    using at body_invalid [of P v tx a r st' err E] assms(4-6) by simp
  moreover have "\<not> InvalidTxErrors E (Error err) \<Longrightarrow>
          errors_Is err (ErrNonceIsBiggerThanAccountNonce E) \<Longrightarrow>
          Base_SelectTxs E b P st pendingTxs a =
            loop E P a post (v\<lparr>processor := st', calls := calls v @ [Transaction tx]\<rparr>)"
    using at body_deferred [of P v tx a r st' err E] assms(4-6) by simp
  moreover have "\<not> InvalidTxErrors E (Error err) \<Longrightarrow>
          \<not> errors_Is err (ErrNonceIsBiggerThanAccountNonce E) \<Longrightarrow>
          errors_Is err (ErrInvalidCumulativeGas E) \<Longrightarrow>
          Base_SelectTxs E b P st pendingTxs a =
            (Return (selectedTxs v) (selectedTxsHashes v) (invalidTxsHashes v) None,
             st', calls v @ [Transaction tx])"
    using at body_capacity [of P v tx a r st' err E] assms(4-6) by simp
  moreover have "\<not> InvalidTxErrors E (Error err) \<Longrightarrow>
          \<not> errors_Is err (ErrNonceIsBiggerThanAccountNonce E) \<Longrightarrow>
          \<not> errors_Is err (ErrInvalidCumulativeGas E) \<Longrightarrow>
          Base_SelectTxs E b P st pendingTxs a =
            (Return NilSlice NilSlice NilSlice (Some err), st', calls v @ [Transaction tx])"
    using at body_fatal [of P v tx a r st' err E] assms(4-6) by simp
  moreover have "\<forall>e target. Unwrap err = Some e \<and> errors_Is e target \<longrightarrow> errors_Is err target"
    using errors_Is_wrapped by blast
  moreover have "errors_Is err err"
    by (rule errors_Is_refl)
  ultimately show ?thesis by blast
qed

theorem classification_precedence_witness:
  "errors_Is (MkError 5 ''sig'' (Some (MkError 3 ''gas'' None))) (ErrInvalidCumulativeGas demo_env)
   \<and> Base_SelectTxs demo_env \<lparr>TxSorter = Some arrival_order\<rparr> demo_processor 0
         [ptx 0, ptx 98, ptx 1] (7::nat) =
       (Return (Slice [0, 1]) (Slice [''0xa0'', ''0xb1'']) (Slice [''0xcc'']) None, 2, [0, 98, 1])
   \<and> Base_SelectTxs demo_env \<lparr>TxSorter = Some arrival_order\<rparr> demo_processor 0
         [ptx 0, ptx 97, ptx 1] (7::nat) =
       (Return (Slice [0, 1]) (Slice [''0xa0'', ''0xb1'']) NilSlice None, 2, [0, 97, 1])
   \<and> InvalidTxErrors demo_env (Error (MkError 1 ''low'' None))
   \<and> Base_SelectTxs demo_env \<lparr>TxSorter = Some arrival_order\<rparr> demo_processor 0
         [ptx 0, ptx 96, ptx 1] (7::nat) =
       (Return NilSlice NilSlice NilSlice (Some (MkError 7 ''wrap'' (Some (MkError 1 ''low'' None)))),
        1, [0, 96])"
proof -
  let ?b = "\<lparr>TxSorter = Some arrival_order\<rparr> :: (nat, unit) Base"
  let ?v = "\<lparr>selectedTxs = Slice [0], selectedTxsHashes = Slice [''0xa0''],
             invalidTxsHashes = NilSlice, processor = 1, calls = [0::nat]\<rparr>"
  let ?e98 = "MkError 5 ''sig'' (Some (MkError 3 ''gas'' None))"
  let ?e97 = "MkError 6 ''held'' (Some (MkError 2 ''high'' None))"
  let ?e96 = "MkError 7 ''wrap'' (Some (MkError 1 ''low'' None))"
  have 1: "TxSorter ?b = Some arrival_order" by simp
  have 3: "through demo_env demo_processor (7::nat) [ptx 0] (init 0) = Some ?v"
    by (simp add: demo_defs)
  have s98: "arrival_order [ptx 0, ptx 98, ptx 1] = [ptx 0] @ ptx 98 # [ptx 1]"
    and s97: "arrival_order [ptx 0, ptx 97, ptx 1] = [ptx 0] @ ptx 97 # [ptx 1]"
    and s96: "arrival_order [ptx 0, ptx 96, ptx 1] = [ptx 0] @ ptx 96 # [ptx 1]"
    by (simp_all add: arrival_order_def)
  have p98: "demo_processor (processor ?v) (Transaction (ptx 98)) (7::nat) =
               (\<lparr>Failed = True, Err = Some ?e98\<rparr>, 1)"
    and p97: "demo_processor (processor ?v) (Transaction (ptx 97)) (7::nat) =
               (\<lparr>Failed = True, Err = Some ?e97\<rparr>, 1)"
    and p96: "demo_processor (processor ?v) (Transaction (ptx 96)) (7::nat) =
               (\<lparr>Failed = True, Err = Some ?e96\<rparr>, 1)"
    by (simp_all add: demo_defs)
  have f: "\<And>e. Failed \<lparr>Failed = True, Err = Some e\<rparr>"
    and g: "\<And>e. Err \<lparr>Failed = True, Err = Some e\<rparr> = Some e"
    by simp_all
  have gas: "errors_Is ?e98 (ErrInvalidCumulativeGas demo_env)"
    by (simp add: demo_env_def)
  have low: "InvalidTxErrors demo_env (Error (MkError 1 ''low'' None))"
    by (simp add: demo_env_def)
  have i98: "InvalidTxErrors demo_env (Error ?e98)"
    by (simp add: demo_env_def)
  have i97: "\<not> InvalidTxErrors demo_env (Error ?e97)
             \<and> errors_Is ?e97 (ErrNonceIsBiggerThanAccountNonce demo_env)"
    by (simp add: demo_env_def)
  have i96: "\<not> InvalidTxErrors demo_env (Error ?e96)
             \<and> \<not> errors_Is ?e96 (ErrNonceIsBiggerThanAccountNonce demo_env)
             \<and> \<not> errors_Is ?e96 (ErrInvalidCumulativeGas demo_env)"
    by (simp add: demo_env_def)
  from classification_precedence
         [where SortTxs = arrival_order and P = demo_processor and E = demo_env and v = ?v
            and b = ?b and err = ?e98, OF 1 s98 3 p98 f g] i98
  have a: "Base_SelectTxs demo_env ?b demo_processor 0 [ptx 0, ptx 98, ptx 1] (7::nat) =
             (Return (Slice [0, 1]) (Slice [''0xa0'', ''0xb1'']) (Slice [''0xcc'']) None,
              2, [0, 98, 1])"
    by (simp add: demo_defs)
  from classification_precedence
         [where SortTxs = arrival_order and P = demo_processor and E = demo_env and v = ?v
            and b = ?b and err = ?e97, OF 1 s97 3 p97 f g] i97
  have b: "Base_SelectTxs demo_env ?b demo_processor 0 [ptx 0, ptx 97, ptx 1] (7::nat) =
             (Return (Slice [0, 1]) (Slice [''0xa0'', ''0xb1'']) NilSlice None, 2, [0, 97, 1])"
    by (simp add: demo_defs)
  from classification_precedence
         [where SortTxs = arrival_order and P = demo_processor and E = demo_env and v = ?v
            and b = ?b and err = ?e96, OF 1 s96 3 p96 f g] i96
  have c: "Base_SelectTxs demo_env ?b demo_processor 0 [ptx 0, ptx 96, ptx 1] (7::nat) =
             (Return NilSlice NilSlice NilSlice (Some ?e96), 1, [0, 96])"
    by (simp add: ptx_def)
  from gas a b low c show ?thesis by blast
qed

end
